theory Spec2Isabelle
  imports Complex_Main
begin

section \<open>Data model of App.js\<close>

text \<open>
  A square of the board holds \<^verbatim>\<open>null\<close>, \<^verbatim>\<open>'X'\<close> or \<^verbatim>\<open>'O'\<close>. The board is an array of
  row arrays. Reading an array past its end gives JavaScript's \<^verbatim>\<open>undefined\<close>, and indexing
  \<^verbatim>\<open>undefined\<close> throws a TypeError; both are written out below, so that the functions of
  the model are defined on every list of lists and not only on 3x3 grids.

  The rows of a board are distinct arrays (\<^verbatim>\<open>getInitialBoard\<close> builds each row with its own
  \<^verbatim>\<open>Array(3).fill(null)\<close>, \<^verbatim>\<open>handleClick\<close> and \<^verbatim>\<open>aiMove\<close> copy every row with
  \<^verbatim>\<open>slice\<close>), so a board is modelled as a value and an in-place write as a list update.
\<close>

datatype mark = PlayerX | PlayerO

datatype cell = Empty | Mark mark

type_synonym board = "cell list list"

type_synonym coord = "nat \<times> nat"

type_synonym line = "coord \<times> coord \<times> coord"

datatype js_error = TypeError

text \<open>\<^verbatim>\<open>xs[i]\<close> for a natural index: \<open>None\<close> stands for \<^verbatim>\<open>undefined\<close>.\<close>

definition js_nth :: "'a list \<Rightarrow> nat \<Rightarrow> 'a option" where
  "js_nth xs i = (if i < length xs then Some (xs ! i) else None)"

text \<open>\<^verbatim>\<open>xs[i]\<close> for any integer index: a negative index names no element.\<close>

definition js_nth_int :: "'a list \<Rightarrow> int \<Rightarrow> 'a option" where
  "js_nth_int xs i = (if i < 0 then None else js_nth xs (nat i))"

text \<open>
  \<^verbatim>\<open>board[i][j]\<close>: a TypeError when \<^verbatim>\<open>board[i]\<close> is undefined, otherwise the element or
  \<^verbatim>\<open>undefined\<close> (\<open>None\<close>).
\<close>

definition readCell :: "board \<Rightarrow> nat \<Rightarrow> nat \<Rightarrow> js_error + cell option" where
  "readCell board i j =
     (case js_nth board i of
        None \<Rightarrow> Inl TypeError
      | Some row \<Rightarrow> Inr (js_nth row j))"

definition readCellInt :: "board \<Rightarrow> int \<Rightarrow> int \<Rightarrow> js_error + cell option" where
  "readCellInt board r c =
     (case js_nth_int board r of
        None \<Rightarrow> Inl TypeError
      | Some row \<Rightarrow> Inr (js_nth_int row c))"

text \<open>
  \<^verbatim>\<open>board[i][j] = v\<close>. Every write of the source comes after a read of the same square that
  returned \<^verbatim>\<open>null\<close>, so the square exists and the write replaces one element.
\<close>

definition setCell :: "board \<Rightarrow> nat \<Rightarrow> nat \<Rightarrow> cell \<Rightarrow> board" where
  "setCell board i j v = board[i := (board ! i)[j := v]]"

text \<open>\<^verbatim>\<open>getInitialBoard\<close>: three fresh rows of three \<^verbatim>\<open>null\<close>s.\<close>

definition getInitialBoard :: board where
  "getInitialBoard = replicate 3 (replicate 3 Empty)"

subsection \<open>checkWinner\<close>

definition directions :: "line list" where
  "directions =
     [((0, 0), (0, 1), (0, 2)),
      ((1, 0), (1, 1), (1, 2)),
      ((2, 0), (2, 1), (2, 2)),
      ((0, 0), (1, 0), (2, 0)),
      ((0, 1), (1, 1), (2, 1)),
      ((0, 2), (1, 2), (2, 2)),
      ((0, 0), (1, 1), (2, 2)),
      ((0, 2), (1, 1), (2, 0))]"

text \<open>
  The loop over \<^verbatim>\<open>directions\<close>. The condition
  \<^verbatim>\<open>v1 && v1 === board[b[0]][b[1]] && v1 === board[c[0]][c[1]]\<close> short-circuits: the second
  square is read only when \<^verbatim>\<open>v1\<close> is a mark (\<^verbatim>\<open>null\<close> and \<^verbatim>\<open>undefined\<close> are falsy), the
  third only when the second equals the first.
\<close>

fun checkLines :: "board \<Rightarrow> line list \<Rightarrow> js_error + (mark \<times> line) option" where
  "checkLines board [] = Inr None"
| "checkLines board ((a, b, c) # rest) =
     (case readCell board (fst a) (snd a) of
        Inl e \<Rightarrow> Inl e
      | Inr (Some (Mark v1)) \<Rightarrow>
          (case readCell board (fst b) (snd b) of
             Inl e \<Rightarrow> Inl e
           | Inr v2 \<Rightarrow>
               if v2 = Some (Mark v1) then
                 (case readCell board (fst c) (snd c) of
                    Inl e \<Rightarrow> Inl e
                  | Inr v3 \<Rightarrow>
                      if v3 = Some (Mark v1) then Inr (Some (v1, (a, b, c)))
                      else checkLines board rest)
               else checkLines board rest)
      | Inr _ \<Rightarrow> checkLines board rest)"

definition checkWinner :: "board \<Rightarrow> js_error + (mark \<times> line) option" where
  "checkWinner board = checkLines board directions"

subsection \<open>Well-formed boards and their squares\<close>

definition wf_board :: "board \<Rightarrow> bool" where
  "wf_board board \<longleftrightarrow> length board = 3 \<and> (\<forall>row \<in> set board. length row = 3)"

definition cellOf :: "board \<Rightarrow> coord \<Rightarrow> cell" where
  "cellOf board p = board ! fst p ! snd p"

definition inGrid :: "coord \<Rightarrow> bool" where
  "inGrid p \<longleftrightarrow> fst p < 3 \<and> snd p < 3"

definition lineInGrid :: "line \<Rightarrow> bool" where
  "lineInGrid l \<longleftrightarrow> (case l of (a, b, c) \<Rightarrow> inGrid a \<and> inGrid b \<and> inGrid c)"

text \<open>The three squares of a line all hold the mark \<open>m\<close>.\<close>

definition uniformLine :: "board \<Rightarrow> line \<Rightarrow> mark \<Rightarrow> bool" where
  "uniformLine board l m \<longleftrightarrow>
     (case l of (a, b, c) \<Rightarrow>
        cellOf board a = Mark m \<and> cellOf board b = Mark m \<and> cellOf board c = Mark m)"

definition rowLine :: "nat \<Rightarrow> line" where
  "rowLine i = ((i, 0), (i, 1), (i, 2))"

definition colLine :: "nat \<Rightarrow> line" where
  "colLine j = ((0, j), (1, j), (2, j))"

definition mainDiagonal :: line where
  "mainDiagonal = ((0, 0), (1, 1), (2, 2))"

definition antiDiagonal :: line where
  "antiDiagonal = ((0, 2), (1, 1), (2, 0))"

text \<open>The mark that fills a line, when there is one.\<close>

definition lineMark :: "board \<Rightarrow> line \<Rightarrow> mark option" where
  "lineMark board l =
     (if uniformLine board l PlayerX then Some PlayerX
      else if uniformLine board l PlayerO then Some PlayerO else None)"

text \<open>The loop of \<open>checkWinner\<close> on a well-formed board, as a search.\<close>

fun firstLine :: "board \<Rightarrow> line list \<Rightarrow> (mark \<times> line) option" where
  "firstLine board [] = None"
| "firstLine board (l # rest) =
     (case lineMark board l of Some m \<Rightarrow> Some (m, l) | None \<Rightarrow> firstLine board rest)"

subsection \<open>isDraw\<close>

text \<open>
  \<^verbatim>\<open>board.flat().every((cell) => cell !== null) && !checkWinner(board)\<close>: the win check
  runs only when every square is occupied.
\<close>

definition isDraw :: "board \<Rightarrow> js_error + bool" where
  "isDraw board =
     (if list_all (\<lambda>cell. cell \<noteq> Empty) (concat board) then
        (case checkWinner board of
           Inl e \<Rightarrow> Inl e
         | Inr w \<Rightarrow> Inr (w = None))
      else Inr False)"

text \<open>
  The three-way classification that \<^verbatim>\<open>handleClick\<close> and \<^verbatim>\<open>aiMove\<close> make of the board
  after a move: \<^verbatim>\<open>if (winner) ... else if (isDraw(newBoard)) ... else ...\<close>.
\<close>

datatype outcome = InProgress | Win mark line | Draw

definition evaluate :: "board \<Rightarrow> js_error + outcome" where
  "evaluate board =
     (case checkWinner board of
        Inl e \<Rightarrow> Inl e
      | Inr (Some w) \<Rightarrow> Inr (Win (fst w) (snd w))
      | Inr None \<Rightarrow>
          (case isDraw board of
             Inl e \<Rightarrow> Inl e
           | Inr d \<Rightarrow> Inr (if d then Draw else InProgress)))"

subsection \<open>simpleAIMove\<close>

text \<open>
  The squares in the order of the nested loops
  \<^verbatim>\<open>for (let i = 0; i < 3; ++i) for (let j = 0; j < 3; ++j)\<close>.
\<close>

definition scanCells :: "coord list" where
  "scanCells = concat (map (\<lambda>i. map (\<lambda>j. (i, j)) [0..<3]) [0..<3])"

text \<open>
  One pass of the nested loops with the mark \<open>m\<close>: an empty square is set to \<open>m\<close> in place,
  the win check runs on the changed board, and the square is set back to \<^verbatim>\<open>null\<close> before
  the function returns the square or goes on to the next one. The board is threaded
  through, so that the result carries the board as the pass leaves it (an exception of
  the win check ends the pass; the result then carries the error only).
  \<^verbatim>\<open>checkWinner(board)?.winner === m\<close> is false when the win check returns \<^verbatim>\<open>null\<close>.
\<close>

fun tryCells :: "mark \<Rightarrow> coord list \<Rightarrow> board \<Rightarrow> js_error + (coord option \<times> board)" where
  "tryCells m [] board = Inr (None, board)"
| "tryCells m ((i, j) # rest) board =
     (case readCell board i j of
        Inl e \<Rightarrow> Inl e
      | Inr v \<Rightarrow>
          if v = Some Empty then
            (let board1 = setCell board i j (Mark m) in
             case checkWinner board1 of
               Inl e \<Rightarrow> Inl e
             | Inr w \<Rightarrow>
                 if map_option fst w = Some m
                 then Inr (Some (i, j), setCell board1 i j Empty)
                 else tryCells m rest (setCell board1 i j Empty))
          else tryCells m rest board)"

text \<open>The loop that pushes every empty square to \<^verbatim>\<open>empties\<close>.\<close>

fun collectEmpties :: "board \<Rightarrow> coord list \<Rightarrow> js_error + coord list" where
  "collectEmpties board [] = Inr []"
| "collectEmpties board ((i, j) # rest) =
     (case readCell board i j of
        Inl e \<Rightarrow> Inl e
      | Inr v \<Rightarrow>
          (case collectEmpties board rest of
             Inl e \<Rightarrow> Inl e
           | Inr es \<Rightarrow> Inr (if v = Some Empty then (i, j) # es else es)))"

subsection \<open>The double product of the random tier\<close>

text \<open>
  \<^verbatim>\<open>Math.floor(Math.random() * empties.length)\<close> multiplies two IEEE 754 doubles and
  rounds the product to the nearest double, ties to even, before \<^verbatim>\<open>Math.floor\<close>.
  A finite non-negative double is \<open>m * 2 ^ e\<close> with a mantissa \<open>m < 2 ^ 53\<close> and an
  exponent \<open>- 1074 \<le> e \<le> 971\<close>; the pair \<open>(m, e)\<close> stands for it. \<^verbatim>\<open>Math.random()\<close>
  returns such a double below 1, and it is a parameter of the model.
\<close>

type_synonym js_double = "nat \<times> int"

definition isDouble :: "js_double \<Rightarrow> bool" where
  "isDouble d \<longleftrightarrow> fst d < 2 ^ 53 \<and> - 1074 \<le> snd d \<and> snd d \<le> 971"

definition doubleValue :: "js_double \<Rightarrow> real" where
  "doubleValue d = real (fst d) * 2 powr real_of_int (snd d)"

text \<open>The number of binary digits of \<open>n\<close>.\<close>

fun bits :: "nat \<Rightarrow> nat" where
  "bits n = (if n = 0 then 0 else Suc (bits (n div 2)))"

declare bits.simps [simp del]

text \<open>\<open>M / 2 ^ k\<close> rounded to the nearest integer, a tie to the even one.\<close>

definition roundHalfEven :: "nat \<Rightarrow> nat \<Rightarrow> nat" where
  "roundHalfEven M k =
     (let q = M div 2 ^ k; rest = M mod 2 ^ k
      in if 2 * rest < 2 ^ k then q
         else if 2 ^ k < 2 * rest then q + 1
         else if even q then q else q + 1)"

text \<open>
  The double \<open>d * n\<close> for an array length \<open>n\<close> (an integer that is a double as it is).
  The exact product is \<open>(m * n) * 2 ^ e\<close>; when \<open>m * n\<close> has more than 53 digits, the
  digits beyond the first 53 are rounded away and the exponent grows by their number.
  The exponent never falls, so the result is on the grid of doubles also for a
  subnormal \<open>d\<close>; a result with the mantissa \<open>2 ^ 53\<close> stands for the double
  \<open>2 ^ 52 * 2 ^ (e + 1)\<close>.
\<close>

definition timesLength :: "js_double \<Rightarrow> nat \<Rightarrow> js_double" where
  "timesLength d n =
     (let M = fst d * n; k = bits M - 53
      in (roundHalfEven M k, snd d + int k))"

text \<open>\<^verbatim>\<open>Math.floor\<close> of a non-negative double.\<close>

definition floorDouble :: "js_double \<Rightarrow> nat" where
  "floorDouble d =
     (if 0 \<le> snd d then fst d * 2 ^ nat (snd d) else fst d div 2 ^ nat (- snd d))"

definition randomIndex :: "js_double \<Rightarrow> nat \<Rightarrow> nat" where
  "randomIndex r n = floorDouble (timesLength r n)"

text \<open>
  \<open>simpleAIMove\<close> returns the chosen square, or \<^verbatim>\<open>undefined\<close> (\<open>None\<close>) when
  \<^verbatim>\<open>empties[...]\<close> reads an empty array, together with the board as the call leaves it.
\<close>

definition simpleAIMove ::
    "board \<Rightarrow> mark \<Rightarrow> mark \<Rightarrow> js_double \<Rightarrow> js_error + (coord option \<times> board)" where
  "simpleAIMove board aiMark humanMark r =
     (case tryCells aiMark scanCells board of
        Inl e \<Rightarrow> Inl e
      | Inr (Some p, board1) \<Rightarrow> Inr (Some p, board1)
      | Inr (None, board1) \<Rightarrow>
          (case tryCells humanMark scanCells board1 of
             Inl e \<Rightarrow> Inl e
           | Inr (Some p, board2) \<Rightarrow> Inr (Some p, board2)
           | Inr (None, board2) \<Rightarrow>
               (case readCell board2 1 1 of
                  Inl e \<Rightarrow> Inl e
                | Inr v \<Rightarrow>
                    if v = Some Empty then Inr (Some (1, 1), board2)
                    else
                      (case collectEmpties board2 scanCells of
                         Inl e \<Rightarrow> Inl e
                       | Inr empties \<Rightarrow>
                           Inr (js_nth empties (randomIndex r (length empties)), board2)))))"

text \<open>
  Placing \<open>m\<close> on the empty square \<open>p\<close> makes the win check report \<open>m\<close> as the winner
  (the test of both passes of \<open>simpleAIMove\<close>).
\<close>

definition winsAfter :: "board \<Rightarrow> mark \<Rightarrow> coord \<Rightarrow> bool" where
  "winsAfter board m p \<longleftrightarrow>
     cellOf board p = Empty \<and>
     (case checkWinner (setCell board (fst p) (snd p) (Mark m)) of
        Inl e \<Rightarrow> False
      | Inr w \<Rightarrow> map_option fst w = Some m)"

text \<open>Placing \<open>m\<close> on the empty square \<open>p\<close> gives a board with a line filled with \<open>m\<close>.\<close>

definition completesLine :: "board \<Rightarrow> mark \<Rightarrow> coord \<Rightarrow> bool" where
  "completesLine board m p \<longleftrightarrow>
     cellOf board p = Empty \<and>
     (\<exists>l \<in> set directions. uniformLine (setCell board (fst p) (snd p) (Mark m)) l m)"

text \<open>Every square of the board is occupied.\<close>

definition fullBoard :: "board \<Rightarrow> bool" where
  "fullBoard board \<longleftrightarrow> (\<forall>p \<in> set scanCells. cellOf board p \<noteq> Empty)"

text \<open>
  What \<open>simpleAIMove\<close> returns on a 3x3 board, as a function of the board alone
  (lemma \<open>simpleAIMove_wf\<close> below proves that it is).
\<close>

definition aiChoice :: "board \<Rightarrow> mark \<Rightarrow> mark \<Rightarrow> js_double \<Rightarrow> coord option" where
  "aiChoice b aiMark humanMark r =
     (case List.find (winsAfter b aiMark) scanCells of
        Some p \<Rightarrow> Some p
      | None \<Rightarrow>
          (case List.find (winsAfter b humanMark) scanCells of
             Some p \<Rightarrow> Some p
           | None \<Rightarrow>
               if cellOf b (1, 1) = Empty then Some (1, 1)
               else js_nth (filter (\<lambda>p. cellOf b p = Empty) scanCells)
                      (randomIndex r (length (filter (\<lambda>p. cellOf b p = Empty) scanCells)))))"

text \<open>The three outcomes, each from the two checks of the source.\<close>

definition hasWinner :: "board \<Rightarrow> bool" where
  "hasWinner board \<longleftrightarrow> (case checkWinner board of Inr (Some w) \<Rightarrow> True | _ \<Rightarrow> False)"

definition drawn :: "board \<Rightarrow> bool" where
  "drawn board \<longleftrightarrow> isDraw board = Inr True"

definition inProgress :: "board \<Rightarrow> bool" where
  "inProgress board \<longleftrightarrow> checkWinner board = Inr None \<and> \<not> fullBoard board"

subsection \<open>Boards used as examples\<close>

definition twoLinesBoard :: board where
  "twoLinesBoard =
     [[Mark PlayerX, Mark PlayerX, Mark PlayerX],
      [Empty, Empty, Empty],
      [Mark PlayerO, Mark PlayerO, Mark PlayerO]]"

definition winNowBoard :: board where
  "winNowBoard =
     [[Empty, Mark PlayerO, Mark PlayerO],
      [Mark PlayerX, Mark PlayerX, Empty],
      [Mark PlayerX, Empty, Empty]]"

definition blockBoard :: board where
  "blockBoard =
     [[Mark PlayerX, Mark PlayerO, Empty],
      [Mark PlayerO, Mark PlayerX, Empty],
      [Empty, Empty, Empty]]"

definition cornerBoard :: board where
  "cornerBoard =
     [[Mark PlayerX, Empty, Empty],
      [Empty, Empty, Empty],
      [Empty, Empty, Empty]]"

definition twoThreatsBoard :: board where
  "twoThreatsBoard =
     [[Mark PlayerX, Mark PlayerX, Empty],
      [Mark PlayerO, Mark PlayerX, Empty],
      [Empty, Mark PlayerO, Empty]]"

definition sixEmptiesBoard :: board where
  "sixEmptiesBoard =
     [[Mark PlayerO, Empty, Empty],
      [Empty, Mark PlayerX, Empty],
      [Empty, Empty, Mark PlayerX]]"

definition drawBoard :: board where
  "drawBoard =
     [[Mark PlayerX, Mark PlayerO, Mark PlayerX],
      [Mark PlayerX, Mark PlayerO, Mark PlayerO],
      [Mark PlayerO, Mark PlayerX, Mark PlayerX]]"

definition wonBoard :: board where
  "wonBoard =
     [[Mark PlayerX, Mark PlayerX, Mark PlayerX],
      [Mark PlayerO, Mark PlayerO, Empty],
      [Empty, Empty, Empty]]"

subsection \<open>The state of the component and handleClick\<close>

datatype game_mode = AiMode | TwoPlayerMode

record app_state =
  board :: board
  xIsNext :: bool
  mode :: "game_mode option"
  status :: string
  winnerInfo :: "(mark \<times> line) option"
  disableBoard :: bool

definition markName :: "mark \<Rightarrow> string" where
  "markName m = (case m of PlayerX \<Rightarrow> ''X'' | PlayerO \<Rightarrow> ''O'')"

text \<open>
  \<open>handleClick\<close> returns the state after the click and, when it has started the timer
  for \<^verbatim>\<open>aiMove(newBoard)\<close>, the board the timer will pass on. A guard that returns early
  leaves the state as it is and starts no timer. The guard
  \<^verbatim>\<open>disableBoard || board[row][col] !== null || winnerInfo\<close> reads the square only when
  \<^verbatim>\<open>disableBoard\<close> is false; \<^verbatim>\<open>undefined !== null\<close> is true.
  \<^verbatim>\<open>board.map(r => r.slice())\<close> copies the rows, so the write goes to the copy.
\<close>

definition handleClick :: "int \<Rightarrow> int \<Rightarrow> app_state \<Rightarrow> js_error + (app_state \<times> board option)" where
  "handleClick row col s =
     (if disableBoard s then Inr (s, None)
      else
        (case readCellInt (board s) row col of
           Inl e \<Rightarrow> Inl e
         | Inr v \<Rightarrow>
             if v \<noteq> Some Empty \<or> winnerInfo s \<noteq> None then Inr (s, None)
             else if mode s = None then Inr (s, None)
             else if mode s = Some AiMode \<and> \<not> xIsNext s then Inr (s, None)
             else
               (let newBoard = setCell (map (\<lambda>r. r) (board s)) (nat row) (nat col)
                                 (Mark (if xIsNext s then PlayerX else PlayerO))
                in case checkWinner newBoard of
                     Inl e \<Rightarrow> Inl e
                   | Inr (Some w) \<Rightarrow>
                       Inr (s\<lparr>board := newBoard, winnerInfo := Some w,
                               status := ''Winner: '' @ markName (fst w),
                               disableBoard := True\<rparr>, None)
                   | Inr None \<Rightarrow>
                       (case isDraw newBoard of
                          Inl e \<Rightarrow> Inl e
                        | Inr d \<Rightarrow>
                            if d then
                              Inr (s\<lparr>board := newBoard, winnerInfo := None,
                                      status := ''Draw!'', disableBoard := True\<rparr>, None)
                            else if mode s = Some AiMode then
                              Inr (s\<lparr>board := newBoard, xIsNext := False,
                                      disableBoard := True\<rparr>, Some newBoard)
                            else
                              Inr (s\<lparr>board := newBoard, xIsNext := \<not> xIsNext s,
                                      status := ''Next: '' @ (if \<not> xIsNext s then ''X'' else ''O'')\<rparr>,
                                   None)))))"

text \<open>\<open>handleStart\<close>: a new game in the chosen mode.\<close>

definition handleStart :: "game_mode \<Rightarrow> app_state \<Rightarrow> app_state" where
  "handleStart modeVal s =
     s\<lparr>board := getInitialBoard, xIsNext := True, mode := Some modeVal, winnerInfo := None,
       disableBoard := False, status := ''Next: X''\<rparr>"

text \<open>
  The state records the result of the win check of its board. \<open>handleStart\<close> sets this
  up and \<open>handleClick\<close> keeps it (lemmas \<open>recordsOutcome_handleStart\<close> and
  \<open>recordsOutcome_handleClick\<close> below).
\<close>

definition recordsOutcome :: "app_state \<Rightarrow> bool" where
  "recordsOutcome s \<longleftrightarrow>
     wf_board (board s) \<and> checkWinner (board s) = Inr (winnerInfo s)"

text \<open>Two states used as examples: a square is taken; X has won.\<close>

definition occupiedState :: app_state where
  "occupiedState =
     \<lparr>board = cornerBoard, xIsNext = False, mode = Some TwoPlayerMode,
      status = ''Next: O'', winnerInfo = None, disableBoard = False\<rparr>"

definition wonState :: app_state where
  "wonState =
     \<lparr>board = wonBoard, xIsNext = True, mode = Some TwoPlayerMode,
      status = ''Winner: X'', winnerInfo = Some (PlayerX, rowLine 0), disableBoard = True\<rparr>"

section \<open>Reading well-formed boards\<close>

lemma readCell_wf:
  assumes "wf_board b" "i < 3" "j < 3"
  shows "readCell b i j = Inr (Some (b ! i ! j))"
  using assms by (simp add: readCell_def js_nth_def wf_board_def)

lemma readCell_cellOf:
  assumes "wf_board b" "inGrid p"
  shows "readCell b (fst p) (snd p) = Inr (Some (cellOf b p))"
  using assms by (simp add: readCell_wf inGrid_def cellOf_def)

lemma directions_inGrid: "\<forall>l \<in> set directions. lineInGrid l"
  by (simp add: directions_def lineInGrid_def inGrid_def)

lemmas board_eval = checkWinner_def directions_def readCell_def js_nth_def setCell_def
  cellOf_def uniformLine_def

lemma lineMark_Some: "lineMark b l = Some m \<longleftrightarrow> uniformLine b l m"
  by (cases m) (auto simp: lineMark_def uniformLine_def split: prod.splits)

lemma lineMark_None: "lineMark b l = None \<longleftrightarrow> (\<forall>m. \<not> uniformLine b l m)"
  by (metis lineMark_Some not_Some_eq)

lemma checkLines_step:
  assumes "wf_board b" "lineInGrid l"
  shows "checkLines b (l # rest) =
           (case lineMark b l of Some m \<Rightarrow> Inr (Some (m, l)) | None \<Rightarrow> checkLines b rest)"
proof -
  obtain p q t where l: "l = (p, q, t)" by (cases l)
  with assms(2) have g: "inGrid p" "inGrid q" "inGrid t"
    by (simp_all add: lineInGrid_def)
  note rd = readCell_cellOf [OF assms(1) g(1)] readCell_cellOf [OF assms(1) g(2)]
    readCell_cellOf [OF assms(1) g(3)]
  show ?thesis
  proof (cases "cellOf b p")
    case Empty
    then show ?thesis
      by (simp add: l rd lineMark_def uniformLine_def)
  next
    case (Mark v1)
    then show ?thesis
      by (cases v1) (auto simp: l rd lineMark_def uniformLine_def)
  qed
qed

lemma checkLines_firstLine:
  assumes "wf_board b" "\<forall>l \<in> set ls. lineInGrid l"
  shows "checkLines b ls = Inr (firstLine b ls)"
  using assms(2)
proof (induction ls)
  case Nil
  show ?case by simp
next
  case (Cons l ls)
  then have "lineInGrid l" and rest: "checkLines b ls = Inr (firstLine b ls)"
    by simp_all
  from checkLines_step [OF assms(1) this(1)] rest show ?case
    by (simp split: option.splits)
qed

lemma checkWinner_firstLine:
  "wf_board b \<Longrightarrow> checkWinner b = Inr (firstLine b directions)"
  unfolding checkWinner_def by (rule checkLines_firstLine [OF _ directions_inGrid])

lemma firstLine_None:
  "firstLine b ls = None \<longleftrightarrow> (\<forall>l \<in> set ls. \<forall>m. \<not> uniformLine b l m)"
  by (induction ls) (auto simp: lineMark_None lineMark_Some split: option.splits)

lemma firstLine_Some:
  "firstLine b ls = Some (m, l) \<longleftrightarrow>
     (\<exists>k < length ls. ls ! k = l \<and> uniformLine b l m \<and>
        (\<forall>k' < k. \<forall>m'. \<not> uniformLine b (ls ! k') m'))"
proof (induction ls)
  case Nil
  show ?case by simp
next
  case (Cons x ls)
  show ?case
  proof (cases "lineMark b x")
    case (Some m0)
    then have u: "uniformLine b x m0" by (simp add: lineMark_Some)
    have "(\<exists>k < length (x # ls). (x # ls) ! k = l \<and> uniformLine b l m \<and>
        (\<forall>k' < k. \<forall>m'. \<not> uniformLine b ((x # ls) ! k') m')) \<longleftrightarrow> (x = l \<and> m0 = m)"
    proof
      assume "\<exists>k < length (x # ls). (x # ls) ! k = l \<and> uniformLine b l m \<and>
        (\<forall>k' < k. \<forall>m'. \<not> uniformLine b ((x # ls) ! k') m')"
      then obtain k where k: "(x # ls) ! k = l" "uniformLine b l m"
        "\<forall>k' < k. \<forall>m'. \<not> uniformLine b ((x # ls) ! k') m'" by blast
      have "k = 0"
      proof (rule ccontr)
        assume "k \<noteq> 0"
        then have "0 < k" by simp
        with k(3) have "\<not> uniformLine b ((x # ls) ! 0) m0" by blast
        with u show False by simp
      qed
      with k(1) have "x = l" by simp
      with k(2) Some show "x = l \<and> m0 = m" by (simp add: lineMark_Some [symmetric])
    next
      assume "x = l \<and> m0 = m"
      with u have "(x # ls) ! 0 = l \<and> uniformLine b l m" by simp
      then show "\<exists>k < length (x # ls). (x # ls) ! k = l \<and> uniformLine b l m \<and>
        (\<forall>k' < k. \<forall>m'. \<not> uniformLine b ((x # ls) ! k') m')" by force
    qed
    with Some show ?thesis by auto
  next
    case None
    then have n: "\<forall>m'. \<not> uniformLine b x m'" by (simp add: lineMark_None)
    have "(\<exists>k < length (x # ls). (x # ls) ! k = l \<and> uniformLine b l m \<and>
        (\<forall>k' < k. \<forall>m'. \<not> uniformLine b ((x # ls) ! k') m')) \<longleftrightarrow>
      (\<exists>k < length ls. ls ! k = l \<and> uniformLine b l m \<and>
        (\<forall>k' < k. \<forall>m'. \<not> uniformLine b (ls ! k') m'))" (is "?L \<longleftrightarrow> ?R")
    proof
      assume ?L
      then obtain k where k: "k < length (x # ls)" "(x # ls) ! k = l" "uniformLine b l m"
        "\<forall>k' < k. \<forall>m'. \<not> uniformLine b ((x # ls) ! k') m'" by blast
      from k(2,3) n have "k \<noteq> 0" by (cases k) auto
      then obtain j where j: "k = Suc j" by (cases k) auto
      with k(1,2) have a: "j < length ls" "ls ! j = l" by simp_all
      have "\<forall>k' < j. \<forall>m'. \<not> uniformLine b (ls ! k') m'"
      proof (intro allI impI)
        fix k' m' assume "k' < j"
        then have "Suc k' < k" using j by simp
        with k(4) have "\<not> uniformLine b ((x # ls) ! Suc k') m'" by blast
        then show "\<not> uniformLine b (ls ! k') m'" by simp
      qed
      with a k(3) show ?R by blast
    next
      assume ?R
      then obtain j where j: "j < length ls" "ls ! j = l" "uniformLine b l m"
        "\<forall>k' < j. \<forall>m'. \<not> uniformLine b (ls ! k') m'" by blast
      have "\<forall>k' < Suc j. \<forall>m'. \<not> uniformLine b ((x # ls) ! k') m'"
      proof (intro allI impI)
        fix k' m' assume lt: "k' < Suc j"
        show "\<not> uniformLine b ((x # ls) ! k') m'"
        proof (cases k')
          case 0
          with n show ?thesis by simp
        next
          case (Suc i)
          with lt j(4) show ?thesis by simp
        qed
      qed
      with j(1,2,3) have "Suc j < length (x # ls) \<and> (x # ls) ! Suc j = l \<and>
        uniformLine b l m \<and> (\<forall>k' < Suc j. \<forall>m'. \<not> uniformLine b ((x # ls) ! k') m')"
        by simp
      then show ?L by blast
    qed
    with None Cons.IH show ?thesis by simp
  qed
qed

section \<open>The win check\<close>

text \<open>
  C1. On every 3x3 board \<open>checkWinner\<close> returns without an exception; the lines it goes
  through are the three rows from top to bottom, the three columns from left to right,
  the main diagonal and the anti-diagonal, in this order; it returns \<^verbatim>\<open>null\<close> exactly when
  no line is filled with one mark, and it returns the mark \<open>m\<close> with the line \<open>l\<close> exactly
  when \<open>l\<close> is filled with \<open>m\<close> and no line before \<open>l\<close> in this order is filled with a mark.
  So of two filled lines only the earlier one is reported.
\<close>

theorem checkWinner_first_line:
  assumes "wf_board b"
  shows "directions = map rowLine [0, 1, 2] @ map colLine [0, 1, 2] @ [mainDiagonal, antiDiagonal] \<and>
    (\<exists>r. checkWinner b = Inr r) \<and>
    (checkWinner b = Inr None \<longleftrightarrow> (\<forall>l \<in> set directions. \<forall>m. \<not> uniformLine b l m)) \<and>
    (\<forall>m l. checkWinner b = Inr (Some (m, l)) \<longleftrightarrow>
       (\<exists>k < length directions. directions ! k = l \<and> uniformLine b l m \<and>
          (\<forall>k' < k. \<forall>m'. \<not> uniformLine b (directions ! k') m')))"
proof -
  have "directions = map rowLine [0, 1, 2] @ map colLine [0, 1, 2] @ [mainDiagonal, antiDiagonal]"
    by (simp add: directions_def rowLine_def colLine_def mainDiagonal_def antiDiagonal_def)
  moreover have "\<exists>r. checkWinner b = Inr r"
    using assms by (simp add: checkWinner_firstLine)
  moreover have "checkWinner b = Inr None \<longleftrightarrow>
           (\<forall>l \<in> set directions. \<forall>m. \<not> uniformLine b l m)"
    using assms by (simp add: checkWinner_firstLine firstLine_None)
  moreover have "checkWinner b = Inr (Some (m, l)) \<longleftrightarrow>
           (\<exists>k < length directions. directions ! k = l \<and> uniformLine b l m \<and>
              (\<forall>k' < k. \<forall>m'. \<not> uniformLine b (directions ! k') m'))" for m l
    using assms by (simp add: checkWinner_firstLine firstLine_Some)
  ultimately show ?thesis by blast
qed

theorem checkWinner_first_line_witness:
  "wf_board twoLinesBoard \<and> uniformLine twoLinesBoard (rowLine 0) PlayerX \<and>
   uniformLine twoLinesBoard (rowLine 2) PlayerO \<and>
   checkWinner twoLinesBoard = Inr (Some (PlayerX, rowLine 0)) \<and>
   checkWinner twoLinesBoard \<noteq> Inr None \<and>
   (\<exists>k < length directions. directions ! k = rowLine 0 \<and>
      (\<forall>k' < k. \<forall>m'. \<not> uniformLine twoLinesBoard (directions ! k') m'))"
proof -
  have wf: "wf_board twoLinesBoard" by (simp add: wf_board_def twoLinesBoard_def)
  have u: "uniformLine twoLinesBoard (rowLine 0) PlayerX"
    "uniformLine twoLinesBoard (rowLine 2) PlayerO"
    by (simp_all add: twoLinesBoard_def rowLine_def board_eval)
  have cw: "checkWinner twoLinesBoard = Inr (Some (PlayerX, rowLine 0))"
    by (simp add: twoLinesBoard_def rowLine_def board_eval)
  from checkWinner_first_line [OF wf] cw
  have "\<exists>k < length directions. directions ! k = rowLine 0 \<and>
      uniformLine twoLinesBoard (rowLine 0) PlayerX \<and>
      (\<forall>k' < k. \<forall>m'. \<not> uniformLine twoLinesBoard (directions ! k') m')"
    by blast
  with wf u cw show ?thesis by auto
qed

section \<open>Writing squares\<close>

lemma scanCells_eq:
  "scanCells = [(0, 0), (0, 1), (0, 2), (1, 0), (1, 1), (1, 2), (2, 0), (2, 1), (2, 2)]"
  by (simp add: scanCells_def upt_rec)

lemma scanCells_inGrid: "p \<in> set scanCells \<longleftrightarrow> inGrid p"
proof
  assume "p \<in> set scanCells"
  then show "inGrid p" by (auto simp: scanCells_eq inGrid_def)
next
  assume "inGrid p"
  then have "fst p \<in> {0, 1, 2}" "snd p \<in> {0, 1, 2}"
    by (auto simp: inGrid_def)
  then show "p \<in> set scanCells"
    by (cases p) (auto simp: scanCells_eq)
qed

lemma wf_setCell:
  assumes "wf_board b"
  shows "wf_board (setCell b i j v)"
proof -
  have "length row = 3" if "row \<in> set (setCell b i j v)" for row
  proof -
    from that have "row = (b ! i)[j := v] \<or> row \<in> set b"
      using set_update_subset_insert [of b i "(b ! i)[j := v]"] by (auto simp: setCell_def)
    then show ?thesis
    proof
      assume r: "row = (b ! i)[j := v]"
      show ?thesis
      proof (cases "i < length b")
        case True
        then have "b ! i \<in> set b" by simp
        with assms r show ?thesis by (simp add: wf_board_def)
      next
        case False
        then have "setCell b i j v = b" by (simp add: setCell_def list_update_beyond)
        with that assms show ?thesis by (simp add: wf_board_def)
      qed
    next
      assume "row \<in> set b"
      with assms show ?thesis by (simp add: wf_board_def)
    qed
  qed
  moreover have "length (setCell b i j v) = 3"
    using assms by (simp add: wf_board_def setCell_def)
  ultimately show ?thesis by (simp add: wf_board_def)
qed

lemma cellOf_setCell:
  assumes "wf_board b" "inGrid p" "inGrid q"
  shows "cellOf (setCell b (fst p) (snd p) v) q = (if q = p then v else cellOf b q)"
proof -
  from assms have len: "length b = 3" "length (b ! fst p) = 3" "fst p < 3" "snd p < 3"
    "fst q < 3" "snd q < 3"
    by (simp_all add: wf_board_def inGrid_def)
  show ?thesis
    using len by (cases p; cases q) (auto simp: cellOf_def setCell_def nth_list_update)
qed

lemma setCell_restore:
  assumes "wf_board b" "inGrid p" "cellOf b p = c"
  shows "setCell (setCell b (fst p) (snd p) v) (fst p) (snd p) c = b"
proof -
  from assms have len: "fst p < length b" "snd p < length (b ! fst p)"
    by (simp_all add: wf_board_def inGrid_def)
  have "(b ! fst p)[snd p := c] = b ! fst p"
    using assms(3) [symmetric] by (simp add: cellOf_def)
  with len show ?thesis
    by (simp add: setCell_def)
qed

lemma tryCells_find:
  assumes "wf_board b" "\<forall>p \<in> set cs. inGrid p"
  shows "tryCells m cs b = Inr (List.find (winsAfter b m) cs, b)"
  using assms(2)
proof (induction cs)
  case Nil
  show ?case by simp
next
  case (Cons p cs)
  obtain i j where p: "p = (i, j)" by (cases p)
  from Cons.prems have g: "inGrid p" and IH: "tryCells m cs b = Inr (List.find (winsAfter b m) cs, b)"
    using Cons.IH by simp_all
  from readCell_cellOf [OF assms(1) g]
  have rd: "readCell b i j = Inr (Some (cellOf b p))" by (simp add: p)
  show ?case
  proof (cases "cellOf b p = Empty")
    case False
    then have "\<not> winsAfter b m p" by (simp add: winsAfter_def)
    with False show ?thesis by (simp add: p [symmetric] rd IH) (simp add: p rd IH)
  next
    case True
    let ?b1 = "setCell b i j (Mark m)"
    have undo: "setCell ?b1 i j Empty = b"
      using setCell_restore [OF assms(1) g True] by (simp add: p)
    have "wf_board ?b1" using assms(1) by (rule wf_setCell)
    then obtain w where w: "checkWinner ?b1 = Inr w"
      by (simp add: checkWinner_firstLine)
    have wa: "winsAfter b m p \<longleftrightarrow> map_option fst w = Some m"
      using True w by (simp add: winsAfter_def p)
    show ?thesis
    proof (cases "winsAfter b m p")
      assume yes: "winsAfter b m p"
      with wa have "map_option fst w = Some m" by simp
      with True yes show ?thesis by (simp add: p [symmetric]) (simp add: p rd w undo)
    next
      assume no: "\<not> winsAfter b m p"
      with wa have "map_option fst w \<noteq> Some m" by simp
      with True no show ?thesis by (simp add: p [symmetric]) (simp add: p rd w undo IH)
    qed
  qed
qed

lemma collectEmpties_filter:
  assumes "wf_board b" "\<forall>p \<in> set cs. inGrid p"
  shows "collectEmpties b cs = Inr (filter (\<lambda>p. cellOf b p = Empty) cs)"
  using assms(2)
proof (induction cs)
  case Nil
  show ?case by simp
next
  case (Cons p cs)
  obtain i j where p: "p = (i, j)" by (cases p)
  from Cons.prems have g: "inGrid p" by simp
  from readCell_cellOf [OF assms(1) g]
  have rd: "readCell b i j = Inr (Some (cellOf b p))" by (simp add: p)
  from Cons show ?case by (simp add: p rd)
qed

section \<open>The double product\<close>

lemma bits_zero: "bits 0 = 0"
  by (subst bits.simps) simp

lemma bits_upper: "n < 2 ^ bits n"
proof (induction n rule: bits.induct)
  case (1 n)
  show ?case
  proof (cases "n = 0")
    case True
    then show ?thesis by (simp add: bits.simps)
  next
    case False
    with 1 have "n div 2 < 2 ^ bits (n div 2)" by simp
    then have "n < 2 * 2 ^ bits (n div 2)" by linarith
    with False show ?thesis by (simp add: bits.simps [of n])
  qed
qed

lemma bits_lower: "0 < n \<Longrightarrow> 2 ^ (bits n - 1) \<le> n"
proof (induction n rule: bits.induct)
  case (1 n)
  then have n: "n \<noteq> 0" by simp
  show ?case
  proof (cases "n div 2 = 0")
    case True
    then have "bits (n div 2) = 0" by (simp add: bits.simps)
    with n 1(2) show ?thesis by (simp add: bits.simps [of n])
  next
    case False
    with 1(1) [OF n] have ih: "2 ^ (bits (n div 2) - 1) \<le> n div 2" by simp
    from False have "0 < bits (n div 2)" by (simp add: bits.simps [of "n div 2"])
    then obtain j where j: "bits (n div 2) = Suc j" by (cases "bits (n div 2)") auto
    with ih have "2 * 2 ^ j \<le> n" by simp
    with n j show ?thesis by (simp add: bits.simps [of n])
  qed
qed

lemma bits_le: "n < 2 ^ b \<Longrightarrow> bits n \<le> b"
proof (rule ccontr)
  assume lt: "n < 2 ^ b" and "\<not> bits n \<le> b"
  then have b: "b \<le> bits n - 1" by simp
  have "0 < n" using \<open>\<not> bits n \<le> b\<close> by (cases "n = 0") (simp_all add: bits.simps)
  from bits_lower [OF this] have "2 ^ (bits n - 1) \<le> n" .
  moreover have "(2::nat) ^ b \<le> 2 ^ (bits n - 1)" using b by (simp add: power_increasing)
  ultimately show False using lt by linarith
qed

lemma roundHalfEven_upper: "2 * (roundHalfEven M k * 2 ^ k) \<le> 2 * M + 2 ^ k"
proof -
  define q where "q = M div 2 ^ k"
  define rest where "rest = M mod 2 ^ k"
  define R where "R = roundHalfEven M k"
  have M: "M = q * 2 ^ k + rest" unfolding q_def rest_def by (rule div_mult_mod_eq [symmetric])
  have le: "R \<le> q + 1"
    by (simp add: R_def roundHalfEven_def Let_def q_def)
  have "2 * (R * 2 ^ k) \<le> 2 * M + 2 ^ k"
  proof (cases "2 * rest < 2 ^ k")
    case True
    then have "R = q" by (simp add: R_def roundHalfEven_def Let_def q_def rest_def)
    then show ?thesis by (simp add: M)
  next
    case False
    then have "2 ^ k \<le> 2 * rest" by simp
    moreover have "R * 2 ^ k \<le> (q + 1) * 2 ^ k"
      using le by (rule mult_le_mono1)
    ultimately show ?thesis by (simp add: M algebra_simps)
  qed
  then show ?thesis by (simp add: R_def)
qed

lemma roundHalfEven_lower: "2 * M \<le> 2 * (roundHalfEven M k * 2 ^ k) + 2 ^ k"
proof -
  define q where "q = M div 2 ^ k"
  define rest where "rest = M mod 2 ^ k"
  define R where "R = roundHalfEven M k"
  have M: "M = q * 2 ^ k + rest" unfolding q_def rest_def by (rule div_mult_mod_eq [symmetric])
  have ge: "q \<le> R"
    by (simp add: R_def roundHalfEven_def Let_def q_def)
  have "2 * M \<le> 2 * (R * 2 ^ k) + 2 ^ k"
  proof (cases "2 * rest \<le> 2 ^ k")
    case True
    define A where "A = q * 2 ^ k"
    define B where "B = R * 2 ^ k"
    have "A \<le> B"
      unfolding A_def B_def using ge by (rule mult_le_mono1)
    with True have "2 * (A + rest) \<le> 2 * B + 2 ^ k" by simp
    then show ?thesis by (simp add: M A_def B_def)
  next
    case False
    then have "R = q + 1" by (simp add: R_def roundHalfEven_def Let_def q_def rest_def)
    moreover have "rest < 2 ^ k" by (simp add: rest_def)
    ultimately show ?thesis by (simp add: M algebra_simps)
  qed
  then show ?thesis by (simp add: R_def)
qed

lemma roundHalfEven_zero: "roundHalfEven M 0 = M"
  by (simp add: roundHalfEven_def)

lemma belowOne_iff:
  "doubleValue (m, e) < 1 \<longleftrightarrow> m = 0 \<or> (e < 0 \<and> m < 2 ^ nat (- e))"
proof (cases "e < 0")
  case True
  then have "2 powr real_of_int e = 1 / 2 ^ nat (- e)"
    by (metis (no_types) powr_real_of_int numeral_One zero_less_numeral not_le order_less_imp_le divide_inverse mult_1 inverse_eq_divide)
  then have "doubleValue (m, e) < 1 \<longleftrightarrow> real m < 2 ^ nat (- e)"
    by (simp add: doubleValue_def)
  also have "\<dots> \<longleftrightarrow> m < 2 ^ nat (- e)"
    by (metis of_nat_less_iff of_nat_numeral of_nat_power)
  finally show ?thesis using True by auto
next
  case False
  then have "2 powr real_of_int e = 2 ^ nat e"
    by (simp add: powr_real_of_int)
  then have "doubleValue (m, e) = real (m * 2 ^ nat e)" by (simp add: doubleValue_def)
  moreover have "real (m * 2 ^ nat e) < 1 \<longleftrightarrow> m * 2 ^ nat e = 0"
    by (metis of_nat_less_iff of_nat_1 less_one)
  ultimately show ?thesis using False by simp
qed

text \<open>
  The model agrees with the arithmetic of the reals: \<open>floorDouble\<close> is the floor of the
  value, and \<open>timesLength\<close> is exact when the product has at most 53 digits and
  otherwise within half a unit of the last place of the exact product, with a mantissa
  of at most \<open>2 ^ 53\<close>.
\<close>

lemma floorDouble_floor: "int (floorDouble d) = \<lfloor>doubleValue d\<rfloor>"
proof (cases "0 \<le> snd d")
  case True
  then have "2 powr real_of_int (snd d) = 2 ^ nat (snd d)"
    by (simp add: powr_real_of_int)
  then have "doubleValue d = real (fst d * 2 ^ nat (snd d))"
    by (simp add: doubleValue_def)
  then have "\<lfloor>doubleValue d\<rfloor> = int (fst d * 2 ^ nat (snd d))"
    by (simp only: floor_of_nat)
  with True show ?thesis by (simp add: floorDouble_def)
next
  case False
  then have "2 powr real_of_int (snd d) = inverse (2 ^ nat (- snd d))"
    by (simp add: powr_real_of_int)
  then have "doubleValue d = real (fst d) / real (2 ^ nat (- snd d))"
    by (simp add: doubleValue_def divide_inverse)
  then have "\<lfloor>doubleValue d\<rfloor> = int (fst d div 2 ^ nat (- snd d))"
    by (simp only: floor_divide_of_nat_eq)
  with False show ?thesis by (simp add: floorDouble_def)
qed

lemma timesLength_exact:
  assumes "fst d * n < 2 ^ 53"
  shows "doubleValue (timesLength d n) = doubleValue d * real n"
proof -
  from assms have "bits (fst d * n) \<le> 53" by (rule bits_le)
  then show ?thesis
    by (simp add: timesLength_def doubleValue_def roundHalfEven_zero)
qed

lemma timesLength_mantissa: "fst (timesLength d n) \<le> 2 ^ 53"
proof -
  define M where "M = fst d * n"
  define k where "k = bits M - 53"
  have "M < 2 ^ (53 + k)"
    using bits_upper [of M] by (metis k_def le_add_diff_inverse less_le_trans linorder_le_cases power_increasing one_le_numeral diff_is_0_eq add.right_neutral)
  then have "M div 2 ^ k < 2 ^ 53"
    by (simp add: power_add less_mult_imp_div_less)
  moreover have "roundHalfEven M k \<le> M div 2 ^ k + 1"
    by (simp add: roundHalfEven_def Let_def)
  ultimately show ?thesis
    by (simp add: timesLength_def M_def k_def Let_def)
qed

lemma timesLength_nearest:
  "\<bar>doubleValue (timesLength d n) - doubleValue d * real n\<bar>
     \<le> 2 powr real_of_int (snd (timesLength d n)) / 2"
proof -
  define M where "M = fst d * n"
  define k where "k = bits M - 53"
  define R where "R = roundHalfEven M k"
  define E where "E = 2 powr real_of_int (snd d)"
  have t: "timesLength d n = (R, snd d + int k)"
    by (simp add: timesLength_def M_def k_def R_def Let_def)
  have "2 * (R * 2 ^ k) \<le> 2 * M + 2 ^ k"
    unfolding R_def by (rule roundHalfEven_upper)
  then have "real (2 * (R * 2 ^ k)) \<le> real (2 * M + 2 ^ k)"
    by (simp only: of_nat_le_iff)
  then have up: "2 * (real R * 2 ^ k) \<le> 2 * real M + 2 ^ k" by simp
  have "2 * M \<le> 2 * (R * 2 ^ k) + 2 ^ k"
    unfolding R_def by (rule roundHalfEven_lower)
  then have "real (2 * M) \<le> real (2 * (R * 2 ^ k) + 2 ^ k)"
    by (simp only: of_nat_le_iff)
  then have lo: "2 * real M \<le> 2 * (real R * 2 ^ k) + 2 ^ k" by simp
  from up lo have ab: "\<bar>real R * 2 ^ k - real M\<bar> \<le> 2 ^ k / 2" by linarith
  have p: "(2::real) powr real_of_int (snd d + int k) = E * 2 ^ k"
    unfolding E_def by (simp add: powr_add powr_realpow)
  have v1: "doubleValue (timesLength d n) = real R * (E * 2 ^ k)"
    unfolding t doubleValue_def fst_conv snd_conv p ..
  have v2: "doubleValue d * real n = E * real M"
    by (simp add: doubleValue_def M_def E_def)
  have "doubleValue (timesLength d n) - doubleValue d * real n = E * (real R * 2 ^ k - real M)"
    unfolding v1 v2 by (simp add: algebra_simps)
  moreover have "0 \<le> E" by (simp add: E_def)
  ultimately have "\<bar>doubleValue (timesLength d n) - doubleValue d * real n\<bar>
      = E * \<bar>real R * 2 ^ k - real M\<bar>"
    by (simp add: abs_mult)
  also have "\<dots> \<le> E * (2 ^ k / 2)"
    using ab \<open>0 \<le> E\<close> by (rule mult_left_mono)
  also have "\<dots> = 2 powr real_of_int (snd (timesLength d n)) / 2"
    unfolding t snd_conv p by simp
  finally show ?thesis .
qed

lemma bits_numeral: "bits (numeral w) = Suc (bits (numeral w div 2))"
  by (subst bits.simps) simp

lemma bits_one: "bits (Suc 0) = Suc 0"
  by (subst bits.simps) (simp add: bits_zero)

lemmas double_eval = randomIndex_def timesLength_def floorDouble_def roundHalfEven_def
  bits_numeral bits_one bits_zero

text \<open>
  Three products: an exact one; the double nearest to 5/6 times 6, which rounds up to 5
  (the exact product is below 5); the largest double below 1 times 9, which stays
  below 9.
\<close>

lemma randomIndex_examples:
  "randomIndex (1, - 1) 4 = 2"
  "randomIndex (7505999378950826, - 53) 6 = 5"
  "randomIndex (9007199254740991, - 53) 9 = 8"
  by (simp_all add: double_eval)

text \<open>
  The index of the random tier is in range: for a double \<open>r < 1\<close> and \<open>n > 0\<close> the rounded
  product stays below \<open>n\<close>.
\<close>

lemma randomIndex_less:
  assumes "isDouble r" and "doubleValue r < 1" and "0 < n"
  shows "randomIndex r n < n"
proof -
  obtain m e where r: "r = (m, e)" by (cases r)
  from assms(1) have m53: "m < 2 ^ 53" by (simp add: isDouble_def r)
  from assms(2) have below: "m = 0 \<or> (e < 0 \<and> m < 2 ^ nat (- e))"
    by (simp add: r belowOne_iff)
  show ?thesis
  proof (cases "m = 0")
    case True
    then show ?thesis
      using assms(3)
      by (simp add: randomIndex_def timesLength_def floorDouble_def r bits_zero
          roundHalfEven_zero)
  next
    case False
    with below have e: "e < 0" and ms: "m < 2 ^ nat (- e)" by simp_all
    define s where "s = nat (- e)"
    define M where "M = m * n"
    define k where "k = bits M - 53"
    define R where "R = roundHalfEven M k"
    have idx: "randomIndex r n = floorDouble (R, e + int k)"
      by (simp add: randomIndex_def timesLength_def r M_def k_def R_def Let_def)
    have Mlt: "M < 2 ^ 53 * n"
      unfolding M_def using m53 assms(3) by simp
    have k2n: "2 ^ k < 2 * n"
    proof (cases "k = 0")
      case True
      with assms(3) show ?thesis by simp
    next
      case False
      then have b: "bits M - 1 = 52 + k" by (simp add: k_def)
      have "0 < M" using False by (cases "M = 0") (simp_all add: k_def bits_zero)
      from bits_lower [OF this] b have "2 ^ (52 + k) \<le> M" by simp
      with Mlt have "(2::nat) ^ (52 + k) < 2 ^ 53 * n" by linarith
      then have "(2::nat) ^ 52 * 2 ^ k < 2 ^ 52 * (2 * n)" by (simp add: power_add)
      then show ?thesis by (simp only: mult_less_cancel1)
    qed
    have "m + 1 \<le> 2 ^ s" using ms by (simp add: s_def)
    then have "(m + 1) * n \<le> 2 ^ s * n" by (rule mult_le_mono1)
    then have Mn: "M + n \<le> n * 2 ^ s" by (simp add: M_def algebra_simps)
    have "2 * (R * 2 ^ k) \<le> 2 * M + 2 ^ k"
      unfolding R_def by (rule roundHalfEven_upper)
    with k2n Mn have Rlt: "R * 2 ^ k < n * 2 ^ s" by linarith
    show ?thesis
    proof (cases "0 \<le> e + int k")
      case True
      then have sk: "s \<le> k" using e by (simp add: s_def)
      then have "(2::nat) ^ k = 2 ^ (k - s) * 2 ^ s" by (simp add: power_add [symmetric])
      with Rlt have "(R * 2 ^ (k - s)) * 2 ^ s < n * 2 ^ s" by (simp add: mult.assoc)
      then have "R * 2 ^ (k - s) < n" by simp
      moreover have "nat (e + int k) = k - s" using e sk by (simp add: s_def)
      ultimately show ?thesis using True by (simp add: idx floorDouble_def)
    next
      case False
      then have ks: "k < s" using e by (simp add: s_def)
      then have "(2::nat) ^ s = 2 ^ (s - k) * 2 ^ k" by (simp add: power_add [symmetric])
      with Rlt have "R * 2 ^ k < (n * 2 ^ (s - k)) * 2 ^ k" by (simp add: mult.assoc)
      then have "R < n * 2 ^ (s - k)" by simp
      then have "R div 2 ^ (s - k) < n"
        by (simp add: less_mult_imp_div_less)
      moreover have "nat (- (e + int k)) = s - k" using e ks by (simp add: s_def)
      ultimately show ?thesis using False by (simp add: idx floorDouble_def)
    qed
  qed
qed

section \<open>simpleAIMove on a well-formed board\<close>

lemma scanCells_all_inGrid: "\<forall>p \<in> set scanCells. inGrid p"
  by (simp add: scanCells_inGrid)

lemma simpleAIMove_wf:
  assumes "wf_board b"
  shows "simpleAIMove b aiMark humanMark r = Inr (aiChoice b aiMark humanMark r, b)"
proof -
  note t = tryCells_find [OF assms scanCells_all_inGrid]
  have c: "readCell b (Suc 0) (Suc 0) = Inr (Some (cellOf b (Suc 0, Suc 0)))"
    using readCell_cellOf [OF assms, of "(1, 1)"] by (simp add: inGrid_def)
  note e = collectEmpties_filter [OF assms scanCells_all_inGrid]
  show ?thesis
    unfolding simpleAIMove_def aiChoice_def
    by (simp add: t c e split: option.splits)
qed

lemma find_SomeD: "List.find P xs = Some x \<Longrightarrow> x \<in> set xs \<and> P x"
  by (auto simp: find_Some_iff)

lemma aiChoice_empty:
  assumes "inGrid p0" "cellOf b p0 = Empty" "isDouble r" "doubleValue r < 1"
  shows "\<exists>p. aiChoice b aiMark humanMark r = Some p \<and> inGrid p \<and> cellOf b p = Empty"
proof (cases "List.find (winsAfter b aiMark) scanCells")
  case (Some p)
  from find_SomeD [OF this] have "inGrid p" "cellOf b p = Empty"
    by (simp_all add: scanCells_inGrid winsAfter_def)
  with Some show ?thesis by (simp add: aiChoice_def)
next
  case n1: None
  show ?thesis
  proof (cases "List.find (winsAfter b humanMark) scanCells")
    case (Some p)
    from find_SomeD [OF this] have "inGrid p" "cellOf b p = Empty"
      by (simp_all add: scanCells_inGrid winsAfter_def)
    with n1 Some show ?thesis by (simp add: aiChoice_def)
  next
    case n2: None
    show ?thesis
    proof (cases "cellOf b (1, 1) = Empty")
      case True
      with n1 n2 show ?thesis by (simp add: aiChoice_def inGrid_def)
    next
      case False
      let ?es = "filter (\<lambda>p. cellOf b p = Empty) scanCells"
      from assms(1,2) have "p0 \<in> set ?es" by (simp add: scanCells_inGrid)
      then have "0 < length ?es" by (cases ?es) auto
      from randomIndex_less [OF assms(3,4) this]
      have lt: "randomIndex r (length ?es) < length ?es" .
      then have "?es ! randomIndex r (length ?es) \<in> set ?es" by (rule nth_mem)
      then have "inGrid (?es ! randomIndex r (length ?es))"
        "cellOf b (?es ! randomIndex r (length ?es)) = Empty"
        by (simp_all add: scanCells_inGrid)
      with n1 n2 False lt show ?thesis
        by (simp add: aiChoice_def js_nth_def)
    qed
  qed
qed

lemma aiChoice_full:
  assumes "fullBoard b"
  shows "aiChoice b aiMark humanMark r = None"
proof -
  from assms have ne: "\<forall>p \<in> set scanCells. cellOf b p \<noteq> Empty" by (simp add: fullBoard_def)
  then have "List.find (winsAfter b m) scanCells = None" for m
    by (auto simp: find_None_iff winsAfter_def)
  moreover have "filter (\<lambda>p. cellOf b p = Empty) scanCells = []"
    using ne by (simp add: filter_empty_conv)
  moreover have "cellOf b (1, 1) \<noteq> Empty"
    using ne by (simp add: scanCells_eq)
  ultimately show ?thesis by (simp add: aiChoice_def js_nth_def)
qed

text \<open>
  On a board without a filled line, the win check reports \<open>m\<close> after \<open>m\<close> is placed exactly
  when the placement fills a line: any line filled after the placement goes through the
  new square.
\<close>

lemma uniformLine_setCell_other:
  assumes "wf_board b" "inGrid p" "lineInGrid l"
    and "uniformLine (setCell b (fst p) (snd p) (Mark m)) l m'" "m' \<noteq> m"
  shows "uniformLine b l m'"
proof -
  obtain x y z where l: "l = (x, y, z)" by (cases l)
  with assms(3) have g: "inGrid x" "inGrid y" "inGrid z" by (simp_all add: lineInGrid_def)
  note c = cellOf_setCell [OF assms(1,2) g(1)] cellOf_setCell [OF assms(1,2) g(2)]
    cellOf_setCell [OF assms(1,2) g(3)]
  from assms(4,5) show ?thesis
    by (auto simp: l uniformLine_def c split: if_splits)
qed

lemma winsAfter_completesLine:
  assumes "wf_board b" "checkWinner b = Inr None" "inGrid p"
  shows "winsAfter b m p \<longleftrightarrow> completesLine b m p"
proof -
  let ?b1 = "setCell b (fst p) (snd p) (Mark m)"
  have wf1: "wf_board ?b1" using assms(1) by (rule wf_setCell)
  have none: "\<forall>l \<in> set directions. \<forall>m'. \<not> uniformLine b l m'"
    using assms(1,2) by (simp add: checkWinner_firstLine firstLine_None)
  have cw: "checkWinner ?b1 = Inr (firstLine ?b1 directions)"
    using wf1 by (rule checkWinner_firstLine)
  have "(map_option fst (firstLine ?b1 directions) = Some m) \<longleftrightarrow>
        (\<exists>l \<in> set directions. uniformLine ?b1 l m)"
  proof
    assume "map_option fst (firstLine ?b1 directions) = Some m"
    then obtain l where "firstLine ?b1 directions = Some (m, l)" by auto
    then show "\<exists>l \<in> set directions. uniformLine ?b1 l m"
      by (auto simp: firstLine_Some)
  next
    assume "\<exists>l \<in> set directions. uniformLine ?b1 l m"
    then have "firstLine ?b1 directions \<noteq> None" by (auto simp: firstLine_None)
    then obtain m' l' where f: "firstLine ?b1 directions = Some (m', l')" by auto
    then have u: "uniformLine ?b1 l' m'" and mem: "l' \<in> set directions"
      by (auto simp: firstLine_Some)
    have "m' = m"
    proof (rule ccontr)
      assume "m' \<noteq> m"
      from mem directions_inGrid have "lineInGrid l'" by blast
      from uniformLine_setCell_other [OF assms(1,3) this u \<open>m' \<noteq> m\<close>]
      have "uniformLine b l' m'" .
      with none mem show False by blast
    qed
    with f show "map_option fst (firstLine ?b1 directions) = Some m" by simp
  qed
  then show ?thesis by (simp add: winsAfter_def completesLine_def cw)
qed

lemma find_winsAfter_completesLine:
  assumes "wf_board b" "checkWinner b = Inr None"
  shows "List.find (winsAfter b m) scanCells = List.find (completesLine b m) scanCells"
  by (rule find_cong [OF refl]) (simp add: winsAfter_completesLine [OF assms] scanCells_inGrid)

section \<open>The tiers of simpleAIMove\<close>

text \<open>
  C2. Win now. On a 3x3 board on which the win check finds no winner, if \<open>p\<close> is the
  first square in row-major order (row 0, 1, 2; within a row column 0, 1, 2) that is empty
  and on which \<open>aiMark\<close> would fill a line, then \<open>simpleAIMove\<close> returns \<open>p\<close>, whatever
  the opponent could do, whether the centre is free, and whatever the random draw is.
\<close>

theorem simpleAIMove_win_now:
  assumes "wf_board b" and "checkWinner b = Inr None"
    and "List.find (completesLine b aiMark) scanCells = Some p"
  shows "simpleAIMove b aiMark humanMark r = Inr (Some p, b)"
proof -
  from assms have "List.find (winsAfter b aiMark) scanCells = Some p"
    by (simp add: find_winsAfter_completesLine)
  then show ?thesis
    by (simp add: simpleAIMove_wf [OF assms(1)] aiChoice_def)
qed

theorem simpleAIMove_win_now_witness:
  "wf_board winNowBoard \<and> checkWinner winNowBoard = Inr None \<and>
   List.find (completesLine winNowBoard PlayerO) scanCells = Some (0, 0) \<and>
   completesLine winNowBoard PlayerX (1, 2) \<and>
   simpleAIMove winNowBoard PlayerO PlayerX (1, - 1) = Inr (Some (0, 0), winNowBoard)"
proof -
  have wf: "wf_board winNowBoard" by (simp add: wf_board_def winNowBoard_def)
  have cw: "checkWinner winNowBoard = Inr None"
    by (simp add: winNowBoard_def board_eval)
  have f: "List.find (completesLine winNowBoard PlayerO) scanCells = Some (0, 0)"
    by (simp add: scanCells_eq completesLine_def winNowBoard_def board_eval)
  have x: "completesLine winNowBoard PlayerX (1, 2)"
    by (simp add: completesLine_def winNowBoard_def board_eval)
  from simpleAIMove_win_now [OF wf cw f] wf cw f x show ?thesis by simp
qed

text \<open>
  C3, as stated, fails. On the board with X X and an empty square in row 0, O X and an
  empty square in row 1 and an empty square, O and an empty square in row 2, no
  placement of O wins, X would win by playing (2, 2), and \<open>simpleAIMove\<close> playing O
  returns (0, 2): X would win there too, and (0, 2) comes first in row-major order.
\<close>

theorem simpleAIMove_block_counterexample:
  "List.find (winsAfter twoThreatsBoard PlayerO) scanCells = None \<and>
   winsAfter twoThreatsBoard PlayerX (2, 2) \<and>
   simpleAIMove twoThreatsBoard PlayerO PlayerX (1, - 1) = Inr (Some (0, 2), twoThreatsBoard)"
  by (simp add: simpleAIMove_def scanCells_eq winsAfter_def twoThreatsBoard_def board_eval)

text \<open>
  C3, amended. Block. On a 3x3 board on which no placement of \<open>aiMark\<close> on an empty
  square makes the win check report \<open>aiMark\<close>, if \<open>p\<close> is the first square in row-major
  order that is empty and on which \<open>humanMark\<close> would make the win check report
  \<open>humanMark\<close>, then \<open>simpleAIMove\<close> returns \<open>p\<close>. In particular it returns (2, 2) when the
  opponent would win by playing (2, 2) and by playing no other square.
\<close>

theorem simpleAIMove_block:
  assumes "wf_board b" and "\<forall>q \<in> set scanCells. \<not> winsAfter b aiMark q"
  shows "(\<forall>p. List.find (winsAfter b humanMark) scanCells = Some p \<longrightarrow>
            simpleAIMove b aiMark humanMark r = Inr (Some p, b)) \<and>
    (winsAfter b humanMark (2, 2) \<and>
       (\<forall>q \<in> set scanCells. q \<noteq> (2, 2) \<longrightarrow> \<not> winsAfter b humanMark q) \<longrightarrow>
     simpleAIMove b aiMark humanMark r = Inr (Some (2, 2), b))"
proof -
  from assms(2) have none: "List.find (winsAfter b aiMark) scanCells = None"
    by (simp add: find_None_iff)
  have first: "simpleAIMove b aiMark humanMark r = Inr (Some p, b)"
    if "List.find (winsAfter b humanMark) scanCells = Some p" for p
    using that none by (simp add: simpleAIMove_wf [OF assms(1)] aiChoice_def)
  have "List.find (winsAfter b humanMark) scanCells = Some (2, 2)"
    if "winsAfter b humanMark (2, 2)"
      and "\<forall>q \<in> set scanCells. q \<noteq> (2, 2) \<longrightarrow> \<not> winsAfter b humanMark q"
    using that by (simp add: scanCells_eq)
  with first show ?thesis by blast
qed

theorem simpleAIMove_block_witness:
  "wf_board blockBoard \<and> List.find (winsAfter blockBoard PlayerO) scanCells = None \<and>
   List.find (winsAfter blockBoard PlayerX) scanCells = Some (2, 2) \<and>
   winsAfter blockBoard PlayerX (2, 2) \<and>
   simpleAIMove blockBoard PlayerO PlayerX (1, - 1) = Inr (Some (2, 2), blockBoard)"
proof -
  have wf: "wf_board blockBoard" by (simp add: wf_board_def blockBoard_def)
  have n: "\<forall>q \<in> set scanCells. \<not> winsAfter blockBoard PlayerO q"
    by (simp add: scanCells_eq winsAfter_def blockBoard_def board_eval)
  have f: "List.find (winsAfter blockBoard PlayerX) scanCells = Some (2, 2)"
    by (simp add: scanCells_eq winsAfter_def blockBoard_def board_eval)
  have w: "winsAfter blockBoard PlayerX (2, 2)"
    by (simp add: winsAfter_def blockBoard_def board_eval)
  from n have n': "List.find (winsAfter blockBoard PlayerO) scanCells = None"
    by (simp add: find_None_iff)
  from simpleAIMove_block [OF wf n, of PlayerX "(1, - 1)"] f
  have "simpleAIMove blockBoard PlayerO PlayerX (1, - 1) = Inr (Some (2, 2), blockBoard)"
    by blast
  with wf n' f w show ?thesis by simp
qed

text \<open>
  C4. Centre. On a 3x3 board on which neither pass finds a square and the centre (1, 1)
  is empty, \<open>simpleAIMove\<close> returns (1, 1). The example after the theorem is the board
  whose only mark is an X at (0, 0), with the program playing O.
\<close>

theorem simpleAIMove_center:
  assumes "wf_board b" and "\<forall>q \<in> set scanCells. \<not> winsAfter b aiMark q"
    and "\<forall>q \<in> set scanCells. \<not> winsAfter b humanMark q"
    and "cellOf b (1, 1) = Empty"
  shows "simpleAIMove b aiMark humanMark r = Inr (Some (1, 1), b)"
proof -
  from assms(2,3) have "List.find (winsAfter b aiMark) scanCells = None"
    "List.find (winsAfter b humanMark) scanCells = None"
    by (simp_all add: find_None_iff)
  with assms(4) show ?thesis
    by (simp add: simpleAIMove_wf [OF assms(1)] aiChoice_def)
qed

theorem simpleAIMove_center_witness:
  "wf_board cornerBoard \<and> List.find (winsAfter cornerBoard PlayerO) scanCells = None \<and>
   List.find (winsAfter cornerBoard PlayerX) scanCells = None \<and>
   cellOf cornerBoard (1, 1) = Empty \<and>
   cornerBoard = setCell getInitialBoard 0 0 (Mark PlayerX) \<and>
   simpleAIMove cornerBoard PlayerO PlayerX (1, - 1) = Inr (Some (1, 1), cornerBoard)"
proof -
  have wf: "wf_board cornerBoard" by (simp add: wf_board_def cornerBoard_def)
  have n1: "\<forall>q \<in> set scanCells. \<not> winsAfter cornerBoard PlayerO q"
    by (simp add: scanCells_eq winsAfter_def cornerBoard_def board_eval)
  have n2: "\<forall>q \<in> set scanCells. \<not> winsAfter cornerBoard PlayerX q"
    by (simp add: scanCells_eq winsAfter_def cornerBoard_def board_eval)
  have c: "cellOf cornerBoard (1, 1) = Empty"
    by (simp add: cornerBoard_def cellOf_def)
  have i: "cornerBoard = setCell getInitialBoard 0 0 (Mark PlayerX)"
    by (simp add: cornerBoard_def getInitialBoard_def setCell_def numeral_3_eq_3)
  from n1 n2 have n': "List.find (winsAfter cornerBoard PlayerO) scanCells = None"
    "List.find (winsAfter cornerBoard PlayerX) scanCells = None"
    by (simp_all add: find_None_iff)
  from simpleAIMove_center [OF wf n1 n2 c] wf n' c i show ?thesis by simp
qed

section \<open>simpleAIMove on full and finished boards, and its effect on the board\<close>

text \<open>
  C8, as stated, fails. On the board with X X X in row 0, O O and an empty square in row 1
  and an empty row 2, the game is won by X, and \<open>simpleAIMove\<close> returns the square (1, 2)
  from its second pass: the source has no check for a finished game and no
  \<^verbatim>\<open>NoMovesAvailable\<close> signal.
\<close>

theorem simpleAIMove_terminal_counterexample:
  "evaluate wonBoard = Inr (Win PlayerX (rowLine 0)) \<and>
   simpleAIMove wonBoard PlayerO PlayerX (1, - 1) = Inr (Some (1, 2), wonBoard)"
  by (simp add: evaluate_def simpleAIMove_def scanCells_eq wonBoard_def rowLine_def board_eval)

text \<open>
  On a board with a winner, placing the winner's mark on an empty square leaves the
  winner's mark on the first filled line, so the pass of \<open>simpleAIMove\<close> for that mark
  finds a square.
\<close>

lemma uniformLine_setCell_keep:
  assumes "wf_board b" "inGrid p" "lineInGrid l" "cellOf b p = Empty" "uniformLine b l w"
  shows "uniformLine (setCell b (fst p) (snd p) v) l w"
proof -
  obtain x y z where l: "l = (x, y, z)" by (cases l)
  with assms(3) have g: "inGrid x" "inGrid y" "inGrid z" by (simp_all add: lineInGrid_def)
  note c = cellOf_setCell [OF assms(1,2) g(1)] cellOf_setCell [OF assms(1,2) g(2)]
    cellOf_setCell [OF assms(1,2) g(3)]
  from assms(4,5) show ?thesis
    by (auto simp: l uniformLine_def c)
qed

lemma firstLine_setCell_winner:
  assumes "wf_board b" "inGrid p" "cellOf b p = Empty" "\<forall>l \<in> set ls. lineInGrid l"
    and "firstLine b ls = Some (w, L)"
  shows "\<exists>L'. firstLine (setCell b (fst p) (snd p) (Mark w)) ls = Some (w, L')"
  using assms(4,5)
proof (induction ls)
  case Nil
  then show ?case by simp
next
  case (Cons l ls)
  let ?b1 = "setCell b (fst p) (snd p) (Mark w)"
  from Cons.prems have g: "lineInGrid l" by simp
  show ?case
  proof (cases "lineMark b l")
    case (Some m0)
    with Cons.prems have "m0 = w" by simp
    with Some have "uniformLine b l w" by (simp add: lineMark_Some)
    from uniformLine_setCell_keep [OF assms(1,2) g assms(3) this]
    have "lineMark ?b1 l = Some w" by (simp add: lineMark_Some)
    then have "firstLine ?b1 (l # ls) = Some (w, l)" by simp
    then show ?thesis by blast
  next
    case None
    with Cons have IH: "\<exists>L'. firstLine ?b1 ls = Some (w, L')" by simp
    show ?thesis
    proof (cases "lineMark ?b1 l")
      case n1: None
      with IH show ?thesis by simp
    next
      case (Some m1)
      then have u: "uniformLine ?b1 l m1" by (simp add: lineMark_Some)
      have "m1 = w"
      proof (rule ccontr)
        assume "m1 \<noteq> w"
        from uniformLine_setCell_other [OF assms(1,2) g u this]
        have "uniformLine b l m1" .
        with None show False by (simp add: lineMark_None)
      qed
      with Some have "firstLine ?b1 (l # ls) = Some (w, l)" by simp
      then show ?thesis by blast
    qed
  qed
qed

lemma winsAfter_winner:
  assumes "wf_board b" "checkWinner b = Inr (Some (w, L))" "inGrid p" "cellOf b p = Empty"
  shows "winsAfter b w p"
proof -
  from assms(1,2) have "firstLine b directions = Some (w, L)"
    by (simp add: checkWinner_firstLine)
  from firstLine_setCell_winner [OF assms(1,3,4) directions_inGrid this]
  obtain L' where "firstLine (setCell b (fst p) (snd p) (Mark w)) directions = Some (w, L')"
    by blast
  moreover have "wf_board (setCell b (fst p) (snd p) (Mark w))"
    using assms(1) by (rule wf_setCell)
  ultimately show ?thesis
    using assms(4) by (simp add: winsAfter_def checkWinner_firstLine)
qed

lemma aiChoice_won:
  assumes "wf_board b" "checkWinner b = Inr (Some (w, L))" "w = aiMark \<or> w = humanMark"
    and "inGrid p0" "cellOf b p0 = Empty"
  shows "\<exists>p. aiChoice b aiMark humanMark r = Some p \<and> inGrid p \<and> cellOf b p = Empty"
proof -
  have w0: "winsAfter b w p0" using assms(1,2,4,5) by (rule winsAfter_winner)
  have mem: "p0 \<in> set scanCells" using assms(4) by (simp add: scanCells_inGrid)
  show ?thesis
  proof (cases "List.find (winsAfter b aiMark) scanCells")
    case (Some p)
    from find_SomeD [OF this] have "inGrid p" "cellOf b p = Empty"
      by (simp_all add: scanCells_inGrid winsAfter_def)
    with Some show ?thesis by (simp add: aiChoice_def)
  next
    case None
    with mem have "\<not> winsAfter b aiMark p0" by (metis find_None_iff)
    with w0 assms(3) have "winsAfter b humanMark p0" by auto
    with mem have "List.find (winsAfter b humanMark) scanCells \<noteq> None"
      by (metis find_None_iff)
    then obtain p where f: "List.find (winsAfter b humanMark) scanCells = Some p" by auto
    from find_SomeD [OF this] have "inGrid p" "cellOf b p = Empty"
      by (simp_all add: scanCells_inGrid winsAfter_def)
    with None f show ?thesis by (simp add: aiChoice_def)
  qed
qed

text \<open>
  C8, amended. On a full 3x3 board \<open>simpleAIMove\<close> throws nothing and returns
  \<^verbatim>\<open>undefined\<close> instead of a square. On a 3x3 board that has a winner and an empty square
  (with two different marks for the program and the opponent) it signals nothing either
  and returns an empty square of the grid.
\<close>

theorem simpleAIMove_full_board:
  assumes "wf_board b"
  shows "(fullBoard b \<longrightarrow> simpleAIMove b aiMark humanMark r = Inr (None, b)) \<and>
    (hasWinner b \<and> \<not> fullBoard b \<and> aiMark \<noteq> humanMark \<longrightarrow>
       (\<exists>p. simpleAIMove b aiMark humanMark r = Inr (Some p, b) \<and> inGrid p \<and>
            cellOf b p = Empty))"
proof (intro conjI impI)
  assume "fullBoard b"
  then show "simpleAIMove b aiMark humanMark r = Inr (None, b)"
    by (simp add: simpleAIMove_wf [OF assms] aiChoice_full)
next
  assume h: "hasWinner b \<and> \<not> fullBoard b \<and> aiMark \<noteq> humanMark"
  then obtain w L where cw: "checkWinner b = Inr (Some (w, L))"
    by (auto simp: hasWinner_def split: sum.splits option.splits)
  from h have "w = aiMark \<or> w = humanMark"
    by (cases w; cases aiMark; cases humanMark) simp_all
  moreover from h obtain p0 where "p0 \<in> set scanCells" "cellOf b p0 = Empty"
    by (auto simp: fullBoard_def)
  then have "inGrid p0" "cellOf b p0 = Empty" by (simp_all add: scanCells_inGrid)
  ultimately have "\<exists>p. aiChoice b aiMark humanMark r = Some p \<and> inGrid p \<and> cellOf b p = Empty"
    using aiChoice_won [OF assms cw] by blast
  then show "\<exists>p. simpleAIMove b aiMark humanMark r = Inr (Some p, b) \<and> inGrid p \<and>
      cellOf b p = Empty"
    by (simp add: simpleAIMove_wf [OF assms])
qed

theorem simpleAIMove_full_board_witness:
  "wf_board drawBoard \<and> fullBoard drawBoard \<and>
   simpleAIMove drawBoard PlayerO PlayerX (1, - 1) = Inr (None, drawBoard) \<and>
   wf_board wonBoard \<and> hasWinner wonBoard \<and> \<not> fullBoard wonBoard \<and>
   (\<exists>p. simpleAIMove wonBoard PlayerO PlayerX (1, - 1) = Inr (Some p, wonBoard) \<and> inGrid p \<and>
        cellOf wonBoard p = Empty)"
proof -
  have wf1: "wf_board drawBoard" by (simp add: wf_board_def drawBoard_def)
  have wf2: "wf_board wonBoard" by (simp add: wf_board_def wonBoard_def)
  have f1: "fullBoard drawBoard"
    by (simp add: fullBoard_def scanCells_eq cellOf_def drawBoard_def)
  have f2: "\<not> fullBoard wonBoard"
    by (simp add: fullBoard_def scanCells_eq cellOf_def wonBoard_def)
  have hw: "hasWinner wonBoard"
    by (simp add: hasWinner_def wonBoard_def board_eval)
  have ne: "PlayerO \<noteq> PlayerX" by simp
  from simpleAIMove_full_board [OF wf1, of PlayerO PlayerX "(1, - 1)"] f1
  have 1: "simpleAIMove drawBoard PlayerO PlayerX (1, - 1) = Inr (None, drawBoard)" by blast
  from simpleAIMove_full_board [OF wf2, of PlayerO PlayerX "(1, - 1)"] hw f2 ne
  have 2: "\<exists>p. simpleAIMove wonBoard PlayerO PlayerX (1, - 1) = Inr (Some p, wonBoard) \<and>
        inGrid p \<and> cellOf wonBoard p = Empty" by blast
  from wf1 f1 1 wf2 hw f2 2 show ?thesis by blast
qed

text \<open>
  C9. On every 3x3 board \<open>simpleAIMove\<close> returns, and the board it leaves is the board it
  was given: each square it sets for the win check is set back to \<^verbatim>\<open>null\<close> before the
  function returns or goes on.
\<close>

theorem simpleAIMove_frame:
  assumes "wf_board b"
  shows "(\<exists>res. simpleAIMove b aiMark humanMark r = Inr (res, b)) \<and>
    (\<forall>res b'. simpleAIMove b aiMark humanMark r = Inr (res, b') \<longrightarrow> b' = b)"
  by (simp add: simpleAIMove_wf [OF assms])

theorem simpleAIMove_frame_witness:
  "wf_board winNowBoard \<and>
   (\<exists>res. simpleAIMove winNowBoard PlayerO PlayerX (1, - 1) = Inr (res, winNowBoard))"
proof -
  have wf: "wf_board winNowBoard" by (simp add: wf_board_def winNowBoard_def)
  from simpleAIMove_frame [OF wf, of PlayerO PlayerX "(1, - 1)"] wf show ?thesis by blast
qed

text \<open>
  C10. On every 3x3 board with an empty square, and for every double \<open>r < 1\<close> that
  \<^verbatim>\<open>Math.random()\<close> may return, \<open>simpleAIMove\<close> returns a pair \<open>(i, j)\<close> with \<open>i < 3\<close>,
  \<open>j < 3\<close> and \<^verbatim>\<open>board[i][j]\<close> empty. In the example after the theorem the random tier
  is reached with six empty squares and the double nearest to 5/6: the double product
  rounds up to 5 and the sixth empty square, (2, 1), is returned.
\<close>

theorem simpleAIMove_valid_square:
  assumes "wf_board b" and "i0 < 3" and "j0 < 3" and "b ! i0 ! j0 = Empty"
    and "isDouble r" and "doubleValue r < 1"
  shows "\<exists>i j. simpleAIMove b aiMark humanMark r = Inr (Some (i, j), b) \<and>
           i < 3 \<and> j < 3 \<and> b ! i ! j = Empty"
proof -
  from assms(2-4) have "inGrid (i0, j0)" "cellOf b (i0, j0) = Empty"
    by (simp_all add: inGrid_def cellOf_def)
  from aiChoice_empty [OF this assms(5,6), of aiMark humanMark]
  obtain p where p: "aiChoice b aiMark humanMark r = Some p" "inGrid p" "cellOf b p = Empty"
    by blast
  obtain i j where "p = (i, j)" by (cases p)
  with p show ?thesis
    by (auto simp: simpleAIMove_wf [OF assms(1)] inGrid_def cellOf_def)
qed

theorem simpleAIMove_valid_square_witness:
  "wf_board sixEmptiesBoard \<and> (0::nat) < 3 \<and> (1::nat) < 3 \<and> sixEmptiesBoard ! 0 ! 1 = Empty \<and>
   isDouble (7505999378950826, - 53) \<and> doubleValue (7505999378950826, - 53) < 1 \<and>
   simpleAIMove sixEmptiesBoard PlayerO PlayerX (7505999378950826, - 53)
     = Inr (Some (2, 1), sixEmptiesBoard) \<and>
   (\<exists>i j. simpleAIMove sixEmptiesBoard PlayerO PlayerX (7505999378950826, - 53)
            = Inr (Some (i, j), sixEmptiesBoard) \<and>
          i < 3 \<and> j < 3 \<and> sixEmptiesBoard ! i ! j = Empty)"
proof -
  have wf: "wf_board sixEmptiesBoard" by (simp add: wf_board_def sixEmptiesBoard_def)
  have e: "sixEmptiesBoard ! 0 ! 1 = Empty" by (simp add: sixEmptiesBoard_def)
  have d: "isDouble (7505999378950826, - 53)" by (simp add: isDouble_def)
  have l: "doubleValue (7505999378950826, - 53) < 1" by (simp add: belowOne_iff)
  have v: "simpleAIMove sixEmptiesBoard PlayerO PlayerX (7505999378950826, - 53)
      = Inr (Some (2, 1), sixEmptiesBoard)"
    by (simp add: simpleAIMove_def scanCells_eq sixEmptiesBoard_def board_eval double_eval)
  from simpleAIMove_valid_square [OF wf _ _ e d l, of PlayerO PlayerX]
  have "\<exists>i j. simpleAIMove sixEmptiesBoard PlayerO PlayerX (7505999378950826, - 53)
            = Inr (Some (i, j), sixEmptiesBoard) \<and>
          i < 3 \<and> j < 3 \<and> sixEmptiesBoard ! i ! j = Empty" by simp
  with wf e d l v show ?thesis by simp
qed

section \<open>Draws and the three outcomes\<close>

lemma list3: "length xs = 3 \<Longrightarrow> xs = [xs ! 0, xs ! 1, xs ! 2]"
  by (auto simp: list_eq_iff_nth_eq less_Suc_eq numeral_3_eq_3 numeral_2_eq_2 nth_Cons')

lemma concat_wf:
  assumes "wf_board b"
  shows "concat b = map (cellOf b) scanCells"
proof -
  from assms have l: "length b = 3" and r: "length (b ! 0) = 3" "length (b ! 1) = 3" "length (b ! 2) = 3"
    by (simp_all add: wf_board_def)
  have "concat b = b ! 0 @ b ! 1 @ b ! 2"
    using list3 [OF l] by (metis append_Nil2 concat.simps)
  also have "\<dots> = map (cellOf b) scanCells"
    using list3 [OF r(1)] list3 [OF r(2)] list3 [OF r(3)]
    by (simp add: scanCells_eq cellOf_def)
  finally show ?thesis .
qed

lemma every_nonnull_wf:
  "wf_board b \<Longrightarrow> list_all (\<lambda>cell. cell \<noteq> Empty) (concat b) \<longleftrightarrow> fullBoard b"
  by (simp add: concat_wf fullBoard_def list_all_iff)

lemma fullBoard_iff: "fullBoard b \<longleftrightarrow> (\<forall>i < 3. \<forall>j < 3. b ! i ! j \<noteq> Empty)"
proof -
  have "fullBoard b \<longleftrightarrow> (\<forall>p. inGrid p \<longrightarrow> cellOf b p \<noteq> Empty)"
    by (auto simp: fullBoard_def scanCells_inGrid)
  then show ?thesis by (auto simp: inGrid_def cellOf_def)
qed

lemma isDraw_wf:
  assumes "wf_board b"
  shows "isDraw b = Inr (fullBoard b \<and> checkWinner b = Inr None)"
  using assms by (simp add: isDraw_def every_nonnull_wf checkWinner_firstLine)

lemma evaluate_wf:
  assumes "wf_board b"
  shows "evaluate b =
    Inr (case firstLine b directions of
           Some w \<Rightarrow> Win (fst w) (snd w)
         | None \<Rightarrow> if fullBoard b then Draw else InProgress)"
  using assms
  by (simp add: evaluate_def isDraw_wf checkWinner_firstLine split: option.splits)

text \<open>
  C5. On every 3x3 board \<open>isDraw\<close> returns true exactly when each of the nine squares is
  occupied and the win check finds no winner, and the outcome of the board is a draw in
  exactly this case. So a full board without a filled line is a draw, and a board with
  an empty square or a winner is not.
\<close>

theorem isDraw_iff_full_no_winner:
  assumes "wf_board b"
  shows "isDraw b = Inr ((\<forall>i < 3. \<forall>j < 3. b ! i ! j \<noteq> Empty) \<and> checkWinner b = Inr None) \<and>
    (evaluate b = Inr Draw \<longleftrightarrow>
       (\<forall>i < 3. \<forall>j < 3. b ! i ! j \<noteq> Empty) \<and> checkWinner b = Inr None)"
proof -
  have "isDraw b = Inr ((\<forall>i < 3. \<forall>j < 3. b ! i ! j \<noteq> Empty) \<and> checkWinner b = Inr None)"
    using isDraw_wf [OF assms] by (simp add: fullBoard_iff)
  moreover have "evaluate b = Inr Draw \<longleftrightarrow>
       (\<forall>i < 3. \<forall>j < 3. b ! i ! j \<noteq> Empty) \<and> checkWinner b = Inr None"
    using assms
    by (simp add: evaluate_wf checkWinner_firstLine fullBoard_iff split: option.splits)
  ultimately show ?thesis by blast
qed

theorem isDraw_iff_full_no_winner_witness:
  "wf_board drawBoard \<and> isDraw drawBoard = Inr True \<and> evaluate drawBoard = Inr Draw \<and>
   fullBoard drawBoard \<and> checkWinner drawBoard = Inr None"
proof -
  have wf: "wf_board drawBoard" by (simp add: wf_board_def drawBoard_def)
  have d: "isDraw drawBoard = Inr True"
    by (simp add: isDraw_def drawBoard_def board_eval)
  from isDraw_iff_full_no_winner [OF wf] d
  have "fullBoard drawBoard \<and> checkWinner drawBoard = Inr None"
    "evaluate drawBoard = Inr Draw"
    by (simp_all add: fullBoard_iff)
  with wf d show ?thesis by blast
qed

text \<open>
  C6. Of the three outcomes of a 3x3 board (the win check finds a winner; \<open>isDraw\<close>
  returns true; no winner and an empty square) exactly one holds, each is the value of
  \<open>evaluate\<close> of that name, and the board of \<open>getInitialBoard\<close> is in progress.
\<close>

theorem outcome_trichotomy:
  assumes "wf_board b"
  shows "(hasWinner b \<and> \<not> drawn b \<and> \<not> inProgress b \<or>
          \<not> hasWinner b \<and> drawn b \<and> \<not> inProgress b \<or>
          \<not> hasWinner b \<and> \<not> drawn b \<and> inProgress b) \<and>
    (hasWinner b \<longleftrightarrow> (\<exists>m l. evaluate b = Inr (Win m l))) \<and>
    (drawn b \<longleftrightarrow> evaluate b = Inr Draw) \<and>
    (inProgress b \<longleftrightarrow> evaluate b = Inr InProgress) \<and>
    evaluate getInitialBoard = Inr InProgress"
proof -
  note cw = checkWinner_firstLine [OF assms]
  have 1: "hasWinner b \<and> \<not> drawn b \<and> \<not> inProgress b \<or>
          \<not> hasWinner b \<and> drawn b \<and> \<not> inProgress b \<or>
          \<not> hasWinner b \<and> \<not> drawn b \<and> inProgress b"
    by (simp add: hasWinner_def drawn_def inProgress_def isDraw_wf [OF assms] cw
        split: option.splits)
  have 2: "hasWinner b \<longleftrightarrow> (\<exists>m l. evaluate b = Inr (Win m l))"
    by (auto simp: hasWinner_def evaluate_wf [OF assms] cw split: option.splits)
  have 3: "drawn b \<longleftrightarrow> evaluate b = Inr Draw"
    by (simp add: drawn_def evaluate_wf [OF assms] isDraw_wf [OF assms] cw split: option.splits)
  have 4: "inProgress b \<longleftrightarrow> evaluate b = Inr InProgress"
    by (simp add: inProgress_def evaluate_wf [OF assms] cw split: option.splits)
  have 5: "evaluate getInitialBoard = Inr InProgress"
    by (simp add: evaluate_def isDraw_def getInitialBoard_def numeral_3_eq_3 board_eval)
  from 1 2 3 4 5 show ?thesis by blast
qed

theorem outcome_trichotomy_witness:
  "wf_board getInitialBoard \<and> \<not> hasWinner getInitialBoard \<and> \<not> drawn getInitialBoard \<and>
   inProgress getInitialBoard \<and> evaluate getInitialBoard = Inr InProgress"
proof -
  have wf: "wf_board getInitialBoard"
    by (simp add: wf_board_def getInitialBoard_def)
  have "\<not> hasWinner getInitialBoard"
    by (simp add: hasWinner_def getInitialBoard_def numeral_3_eq_3 board_eval)
  with outcome_trichotomy [OF wf] wf show ?thesis by blast
qed

section \<open>Clicks that handleClick turns down\<close>

lemma readCellInt_wf:
  assumes "wf_board b"
  shows "readCellInt b r c =
    (if r < 0 \<or> 3 \<le> r then Inl TypeError
     else if c < 0 \<or> 3 \<le> c then Inr None
     else Inr (Some (cellOf b (nat r, nat c))))"
proof (cases "r < 0 \<or> 3 \<le> r")
  case True
  with assms show ?thesis
    by (auto simp: readCellInt_def js_nth_int_def js_nth_def wf_board_def)
next
  case False
  then have r: "nat r < 3" by linarith
  with assms have "b ! nat r \<in> set b" by (simp add: wf_board_def)
  with assms have "length (b ! nat r) = 3" by (simp add: wf_board_def)
  with assms False r show ?thesis
    by (auto simp: readCellInt_def js_nth_int_def js_nth_def wf_board_def cellOf_def)
qed

lemma recordsOutcome_handleStart: "recordsOutcome (handleStart modeVal s)"
  by (simp add: recordsOutcome_def handleStart_def wf_board_def getInitialBoard_def
      numeral_3_eq_3 board_eval)

lemma recordsOutcome_handleClick:
  assumes "recordsOutcome s" and "handleClick row col s = Inr (s', t)"
  shows "recordsOutcome s'"
proof -
  from assms(1) have wf: "wf_board (board s)" and cw: "checkWinner (board s) = Inr (winnerInfo s)"
    by (simp_all add: recordsOutcome_def)
  show ?thesis
  proof (cases "s' = s")
    case True
    with assms(1) show ?thesis by simp
  next
    case False
    have wn: "winnerInfo s = None"
    proof (cases "winnerInfo s")
      case None
      then show ?thesis .
    next
      case (Some w)
      then have "handleClick row col s = Inr (s, None) \<or> (\<exists>e. handleClick row col s = Inl e)"
        by (simp add: handleClick_def split: sum.splits)
      with assms(2) False show ?thesis by auto
    qed
    from False assms(2) show ?thesis
      unfolding handleClick_def Let_def
      by (auto simp: wn recordsOutcome_def wf_setCell [OF wf] checkWinner_firstLine isDraw_wf
          split: if_splits sum.splits option.splits)
  qed
qed

lemma terminal_recorded:
  assumes "recordsOutcome s" and "evaluate (board s) \<noteq> Inr InProgress"
  shows "winnerInfo s \<noteq> None \<or> fullBoard (board s)"
proof -
  from assms(1) have wf: "wf_board (board s)" and cw: "checkWinner (board s) = Inr (winnerInfo s)"
    by (simp_all add: recordsOutcome_def)
  from cw have "firstLine (board s) directions = winnerInfo s"
    by (simp add: checkWinner_firstLine [OF wf])
  with assms(2) show ?thesis
    by (auto simp: evaluate_wf [OF wf] split: option.splits if_splits)
qed

text \<open>
  C7, as stated, fails. A click on the taken square (0, 0) makes \<open>handleClick\<close> return
  through its guard: the call ends like any other call, with the state as it was, and no
  error is signalled. The source has no \<^verbatim>\<open>InvalidMove\<close> signal.
\<close>

theorem handleClick_no_signal_counterexample:
  "cellOf (board occupiedState) (0, 0) = Mark PlayerX \<and>
   handleClick 0 0 occupiedState = Inr (occupiedState, None) \<and>
   \<not> isl (handleClick 0 0 occupiedState)"
  by (simp add: occupiedState_def cornerBoard_def cellOf_def handleClick_def readCellInt_def
      js_nth_int_def js_nth_def)

text \<open>
  C7, amended. Let the board of the state be 3x3, and let the square be taken, or the
  column or the row be outside 0..2, or the game be over (the board is disabled, a winner
  is recorded, or the state records the win check of its board and the board is won or
  drawn). Then \<open>handleClick\<close> sets no new board and leaves the state as it is, and it
  starts no timer: it returns through its guard, except that a row outside 0..2 on a
  board that is not disabled makes the read \<^verbatim>\<open>board[row][col]\<close> throw a TypeError.
\<close>

theorem handleClick_rejects:
  assumes "wf_board (board s)"
    and "disableBoard s \<or> winnerInfo s \<noteq> None \<or>
         (recordsOutcome s \<and> evaluate (board s) \<noteq> Inr InProgress) \<or>
         row < 0 \<or> 3 \<le> row \<or> col < 0 \<or> 3 \<le> col \<or>
         cellOf (board s) (nat row, nat col) \<noteq> Empty"
  shows "handleClick row col s =
    (if \<not> disableBoard s \<and> (row < 0 \<or> 3 \<le> row) then Inl TypeError else Inr (s, None))"
proof (cases "disableBoard s")
  case True
  then show ?thesis by (simp add: handleClick_def)
next
  case nd: False
  note rd = readCellInt_wf [OF assms(1), of row col]
  show ?thesis
  proof (cases "row < 0 \<or> 3 \<le> row")
    case True
    with nd rd show ?thesis by (simp add: handleClick_def)
  next
    case rowin: False
    show ?thesis
    proof (cases "col < 0 \<or> 3 \<le> col")
      case True
      with nd rowin rd show ?thesis by (simp add: handleClick_def)
    next
      case colin: False
      from rowin colin have "nat row < 3" "nat col < 3" by linarith+
      then have g: "inGrid (nat row, nat col)" by (simp add: inGrid_def)
      have "cellOf (board s) (nat row, nat col) \<noteq> Empty \<or> winnerInfo s \<noteq> None"
      proof (cases "recordsOutcome s \<and> evaluate (board s) \<noteq> Inr InProgress")
        case True
        with terminal_recorded have "winnerInfo s \<noteq> None \<or> fullBoard (board s)" by blast
        with g show ?thesis by (auto simp: fullBoard_def scanCells_inGrid)
      next
        case False
        with assms(2) nd rowin colin show ?thesis by auto
      qed
      with nd rowin colin rd show ?thesis by (auto simp: handleClick_def)
    qed
  qed
qed

theorem handleClick_rejects_witness:
  "wf_board (board wonState) \<and> recordsOutcome wonState \<and>
   evaluate (board wonState) \<noteq> Inr InProgress \<and>
   handleClick 2 2 wonState = Inr (wonState, None) \<and>
   wf_board (board occupiedState) \<and> cellOf (board occupiedState) (nat 0, nat 0) \<noteq> Empty \<and>
   handleClick 0 0 occupiedState = Inr (occupiedState, None) \<and>
   handleClick 0 7 occupiedState = Inr (occupiedState, None) \<and>
   handleClick 3 0 occupiedState = Inl TypeError"
proof -
  have wf1: "wf_board (board wonState)" by (simp add: wonState_def wonBoard_def wf_board_def)
  have ro: "recordsOutcome wonState"
    using wf1 by (simp add: recordsOutcome_def) (simp add: wonState_def wonBoard_def rowLine_def board_eval)
  have ev: "evaluate (board wonState) \<noteq> Inr InProgress"
    by (simp add: evaluate_def wonState_def wonBoard_def board_eval)
  have d: "disableBoard wonState" by (simp add: wonState_def)
  have wf2: "wf_board (board occupiedState)"
    by (simp add: occupiedState_def cornerBoard_def wf_board_def)
  have oc: "cellOf (board occupiedState) (nat 0, nat 0) \<noteq> Empty"
    by (simp add: occupiedState_def cornerBoard_def cellOf_def)
  have nd: "\<not> disableBoard occupiedState" by (simp add: occupiedState_def)
  from handleClick_rejects [OF wf1, of 2 2] ro ev d
  have 1: "handleClick 2 2 wonState = Inr (wonState, None)" by simp
  from handleClick_rejects [OF wf2, of 0 0] oc
  have 2: "handleClick 0 0 occupiedState = Inr (occupiedState, None)" by simp
  from handleClick_rejects [OF wf2, of 0 7]
  have 3: "handleClick 0 7 occupiedState = Inr (occupiedState, None)" by simp
  from handleClick_rejects [OF wf2, of 3 0] nd
  have 4: "handleClick 3 0 occupiedState = Inl TypeError" by simp
  from wf1 ro ev 1 wf2 oc 2 3 4 show ?thesis by blast
qed

end
